theory Spec2Isabelle
  imports Main "HOL-Library.AList" "HOL-Library.Sublist"
begin

section \<open>The crossword solver of \<^verbatim>\<open>src/crossword/generate.py\<close>\<close>

text \<open>
  The class \<^verbatim>\<open>CrosswordCreator\<close> holds a puzzle structure (\<^verbatim>\<open>self.crossword\<close>) and
  one set of candidate words per slot (\<^verbatim>\<open>self.domains\<close>). The structure's own classes
  (\<^verbatim>\<open>Variable\<close>, \<^verbatim>\<open>Crossword\<close>) are imported by the file and are not part of it; the
  embedding takes them as data.
\<close>

subsection \<open>Data\<close>

datatype direction = ACROSS | DOWN

text \<open>
  Modelled from the spec: the slot class \<^verbatim>\<open>Variable\<close> is imported from the module
  \<^verbatim>\<open>crossword\<close>. A slot is the value (row, column, direction, length), compared by value.
\<close>

datatype variable = Variable (var_i: nat) (var_j: nat) (var_direction: direction) (var_length: nat)

text \<open>
  An entry of the table \<^verbatim>\<open>crossword.overlaps\<close>, as the solver reads it: either the
  absent value \<^verbatim>\<open>None\<close>, or a pair that the solver unpacks into \<^verbatim>\<open>i, j\<close> and whose
  components it then tests against \<^verbatim>\<open>None\<close>.
\<close>

datatype overlap = NoOverlap | Offsets "nat option" "nat option"

text \<open>
  The puzzle structure. \<^verbatim>\<open>variables\<close> and \<^verbatim>\<open>words\<close> are Python sets; the lists give
  their elements in the order in which the sets are iterated.
\<close>

record crossword =
  variables :: "variable list"
  words :: "string list"
  overlaps :: "variable \<Rightarrow> variable \<Rightarrow> overlap"

text \<open>
  Modelled from the spec: the method \<^verbatim>\<open>Crossword.neighbors\<close> is not part of the file.
  The neighbours of \<open>x\<close> are the slots \<open>y \<noteq> x\<close> of the puzzle that overlap \<open>x\<close>.
\<close>

definition neighbors :: "crossword \<Rightarrow> variable \<Rightarrow> variable list" where
  "neighbors cw x = filter (\<lambda>y. y \<noteq> x \<and> overlaps cw x y \<noteq> NoOverlap) (variables cw)"

text \<open>
  \<^verbatim>\<open>self.domains\<close> is a dictionary whose keys are the slots of the structure
  (built so by \<^verbatim>\<open>__init__\<close>, and no method adds or deletes a key). The keys are
  \<open>variables cw\<close>; the values are given by a function, each a list of distinct words in
  the iteration order of the Python set. Looking up a slot that is no key raises
  \<^verbatim>\<open>KeyError\<close>.
\<close>

type_synonym domains = "variable \<Rightarrow> string list"

type_synonym assignment = "(variable \<times> string) list"

datatype error = TypeError | IndexError | KeyError | ValueError

definition init_domains :: "crossword \<Rightarrow> domains" where
  "init_domains cw = (\<lambda>var. words cw)"

definition lookup_domain :: "crossword \<Rightarrow> domains \<Rightarrow> variable \<Rightarrow> error + string list" where
  "lookup_domain cw ds x = (if x \<in> set (variables cw) then Inr (ds x) else Inl KeyError)"

subsection \<open>Node consistency\<close>

text \<open>
  \<^verbatim>\<open>
  def enforce_node_consistency(self):
      for var in self.domains:
          to_remove = {word for word in self.domains[var] if len(word) != var.length}
          self.domains[var] -= to_remove
  \<close>
\<close>

definition node_to_remove :: "domains \<Rightarrow> variable \<Rightarrow> string list" where
  "node_to_remove ds var = filter (\<lambda>word. length word \<noteq> var_length var) (ds var)"

definition remove_words :: "string list \<Rightarrow> string list \<Rightarrow> string list" where
  "remove_words ws to_remove = filter (\<lambda>word. word \<notin> set to_remove) ws"

fun enforce_loop :: "variable list \<Rightarrow> domains \<Rightarrow> domains" where
  "enforce_loop [] ds = ds"
| "enforce_loop (var # vars) ds =
     enforce_loop vars (ds(var := remove_words (ds var) (node_to_remove ds var)))"

definition enforce_node_consistency :: "crossword \<Rightarrow> domains \<Rightarrow> domains" where
  "enforce_node_consistency cw ds = enforce_loop (variables cw) ds"

subsection \<open>Arc consistency\<close>

text \<open>
  \<^verbatim>\<open>
  def revise(self, x, y):
      revised = False
      i, j = self.crossword.overlaps[x, y]
      if i is not None and j is not None:
          to_remove = set()
          for x_word in self.domains[x]:
              if not any(x_word[i] == y_word[j] for y_word in self.domains[y]):
                  to_remove.add(x_word)
          if to_remove:
              self.domains[x] -= to_remove
              revised = True
      return revised
  \<close>
  Unpacking \<^verbatim>\<open>None\<close> into \<^verbatim>\<open>i, j\<close> raises \<^verbatim>\<open>TypeError\<close>; indexing a word at or beyond
  its length raises \<^verbatim>\<open>IndexError\<close>. \<^verbatim>\<open>any\<close> stops at the first match.
\<close>

fun any_match :: "nat \<Rightarrow> nat \<Rightarrow> string \<Rightarrow> string list \<Rightarrow> error + bool" where
  "any_match i j x_word [] = Inr False"
| "any_match i j x_word (y_word # y_words) =
     (if length x_word \<le> i then Inl IndexError
      else if length y_word \<le> j then Inl IndexError
      else if x_word ! i = y_word ! j then Inr True
      else any_match i j x_word y_words)"

fun revise_to_remove ::
  "crossword \<Rightarrow> domains \<Rightarrow> nat \<Rightarrow> nat \<Rightarrow> variable \<Rightarrow> string list \<Rightarrow> error + string list" where
  "revise_to_remove cw ds i j y [] = Inr []"
| "revise_to_remove cw ds i j y (x_word # x_words) =
     (case lookup_domain cw ds y of
        Inl e \<Rightarrow> Inl e
      | Inr dy \<Rightarrow>
          (case any_match i j x_word dy of
             Inl e \<Rightarrow> Inl e
           | Inr found \<Rightarrow>
               (case revise_to_remove cw ds i j y x_words of
                  Inl e \<Rightarrow> Inl e
                | Inr to_remove \<Rightarrow> Inr (if found then to_remove else x_word # to_remove))))"

definition revise :: "crossword \<Rightarrow> domains \<Rightarrow> variable \<Rightarrow> variable \<Rightarrow> error + (bool \<times> domains)" where
  "revise cw ds x y =
     (case overlaps cw x y of
        NoOverlap \<Rightarrow> Inl TypeError
      | Offsets None j \<Rightarrow> Inr (False, ds)
      | Offsets (Some i) None \<Rightarrow> Inr (False, ds)
      | Offsets (Some i) (Some j) \<Rightarrow>
          (case lookup_domain cw ds x of
             Inl e \<Rightarrow> Inl e
           | Inr dx \<Rightarrow>
               (case revise_to_remove cw ds i j y dx of
                  Inl e \<Rightarrow> Inl e
                | Inr to_remove \<Rightarrow>
                    if to_remove \<noteq> [] then Inr (True, ds(x := remove_words dx to_remove))
                    else Inr (False, ds))))"

text \<open>
  \<^verbatim>\<open>
  def ac3(self, arcs=None):
      queue = deque(arcs) if arcs else deque([(x, y) for x in self.domains
                                              for y in self.crossword.neighbors(x) if x != y])
      while queue:
          x, y = queue.popleft()
          if self.revise(x, y):
              if len(self.domains[x]) == 0:
                  return False
              for z in self.crossword.neighbors(x) - {y}:
                  queue.append((z, x))
      return True
  \<close>
  The result carries the domains the call leaves behind.
\<close>

definition all_arcs :: "crossword \<Rightarrow> (variable \<times> variable) list" where
  "all_arcs cw =
     concat (map (\<lambda>x. map (\<lambda>y. (x, y)) (filter (\<lambda>y. x \<noteq> y) (neighbors cw x))) (variables cw))"

definition domains_size :: "crossword \<Rightarrow> domains \<Rightarrow> nat" where
  "domains_size cw ds = sum_list (map (\<lambda>v. length (ds v)) (variables cw))"

lemma revise_to_remove_subset:
  "revise_to_remove cw ds i j y dx = Inr to_remove \<Longrightarrow> set to_remove \<subseteq> set dx"
  by (induction dx arbitrary: to_remove) (auto split: sum.splits if_splits)

lemma remove_words_shorter:
  assumes "to_remove \<noteq> []" "set to_remove \<subseteq> set dx"
  shows "length (remove_words dx to_remove) < length dx"
proof -
  obtain w where "w \<in> set to_remove" using assms(1) by (cases to_remove) auto
  with assms(2) have "w \<in> set dx" "\<not> (w \<notin> set to_remove)" by auto
  then show ?thesis
    using length_filter_less [of w dx "\<lambda>word. word \<notin> set to_remove"]
    by (simp add: remove_words_def)
qed

lemma sum_list_strict_less:
  fixes f g :: "'a \<Rightarrow> nat"
  assumes "x \<in> set vs" "g x < f x" "\<And>v. g v \<le> f v"
  shows "sum_list (map g vs) < sum_list (map f vs)"
  using assms(1)
proof (induction vs)
  case Nil
  then show ?case by simp
next
  case (Cons v vs)
  have le: "sum_list (map g vs) \<le> sum_list (map f vs)"
    using assms(3) by (simp add: sum_list_mono)
  show ?case
  proof (cases "v = x")
    case True
    then show ?thesis using assms(2) le by simp
  next
    case False
    with Cons have "sum_list (map g vs) < sum_list (map f vs)" by simp
    then show ?thesis using assms(3) [of v] by simp
  qed
qed

lemma revise_unrevised: "revise cw ds x y = Inr (False, ds') \<Longrightarrow> ds' = ds"
  by (auto simp: revise_def split: overlap.splits option.splits sum.splits if_splits)

lemma revise_revised:
  assumes "revise cw ds x y = Inr (True, ds')"
  shows "x \<in> set (variables cw) \<and> length (ds' x) < length (ds x) \<and> (\<forall>v. v \<noteq> x \<longrightarrow> ds' v = ds v)"
proof -
  from assms obtain i j to_remove where
    x: "x \<in> set (variables cw)" and
    r: "revise_to_remove cw ds i j y (ds x) = Inr to_remove" and
    ne: "to_remove \<noteq> []" and
    ds': "ds' = ds(x := remove_words (ds x) to_remove)"
    by (auto simp: revise_def lookup_domain_def split: overlap.splits option.splits sum.splits if_splits)
  from remove_words_shorter [OF ne revise_to_remove_subset [OF r]] x ds' show ?thesis by simp
qed

lemma revise_revised_size:
  assumes "revise cw ds x y = Inr (True, ds')"
  shows "domains_size cw ds' < domains_size cw ds"
proof -
  from revise_revised [OF assms] have x: "x \<in> set (variables cw)"
    and less: "length (ds' x) < length (ds x)" and same: "\<And>v. v \<noteq> x \<Longrightarrow> ds' v = ds v"
    by auto
  have "length (ds' v) \<le> length (ds v)" for v
    using less same [of v] by (cases "v = x") auto
  from sum_list_strict_less [of x "variables cw" "\<lambda>v. length (ds' v)" "\<lambda>v. length (ds v)", OF x less this]
  show ?thesis by (simp add: domains_size_def)
qed

function ac3_loop ::
  "crossword \<Rightarrow> domains \<Rightarrow> (variable \<times> variable) list \<Rightarrow> error + (bool \<times> domains)" where
  "ac3_loop cw ds [] = Inr (True, ds)"
| "ac3_loop cw ds ((x, y) # queue) =
     (case revise cw ds x y of
        Inl e \<Rightarrow> Inl e
      | Inr (revised, ds') \<Rightarrow>
          if revised then
            (case lookup_domain cw ds' x of
               Inl e \<Rightarrow> Inl e
             | Inr dx \<Rightarrow>
                 if length dx = 0 then Inr (False, ds')
                 else ac3_loop cw ds'
                        (queue @ map (\<lambda>z. (z, x)) (filter (\<lambda>z. z \<noteq> y) (neighbors cw x))))
          else ac3_loop cw ds' queue)"
  by pat_completeness auto
termination
proof (relation "measures [\<lambda>(cw, ds, queue). domains_size cw ds, \<lambda>(cw, ds, queue). length queue]")
  show "wf (measures [\<lambda>(cw, ds, queue). domains_size cw ds, \<lambda>(cw, ds, queue). length queue])"
    by simp
next
  fix cw ds x y queue r revised ds' dx
  assume "revise cw ds x y = Inr r" "(revised, ds') = r" "revised"
  then have "revise cw ds x y = Inr (True, ds')" by simp
  from revise_revised_size [OF this]
  show "((cw, ds', queue @ map (\<lambda>z. (z, x)) (filter (\<lambda>z. z \<noteq> y) (neighbors cw x))), cw, ds, (x, y) # queue)
        \<in> measures [\<lambda>(cw, ds, queue). domains_size cw ds, \<lambda>(cw, ds, queue). length queue]"
    by simp
next
  fix cw ds x y queue r revised ds'
  assume "revise cw ds x y = Inr r" "(revised, ds') = r" "\<not> revised"
  then have "revise cw ds x y = Inr (False, ds')" by simp
  from revise_unrevised [OF this]
  show "((cw, ds', queue), cw, ds, (x, y) # queue)
        \<in> measures [\<lambda>(cw, ds, queue). domains_size cw ds, \<lambda>(cw, ds, queue). length queue]"
    by simp
qed

definition ac3 ::
  "crossword \<Rightarrow> domains \<Rightarrow> (variable \<times> variable) list option \<Rightarrow> error + (bool \<times> domains)" where
  "ac3 cw ds arcs =
     ac3_loop cw ds
       (case arcs of
          None \<Rightarrow> all_arcs cw
        | Some [] \<Rightarrow> all_arcs cw
        | Some (arc # rest) \<Rightarrow> arc # rest)"

subsection \<open>What the specification says of arcs\<close>

text \<open>
  Two words agree at the offsets \<open>(i, j)\<close> when both offsets are inside the words and the
  letters there are equal. The arc \<open>(x, y)\<close> is consistent when every word of \<open>x\<close>'s
  domain agrees with some word of \<open>y\<close>'s domain at the overlap of \<open>x\<close> and \<open>y\<close>. The
  overlap relation is symmetric when the entry for \<open>(y, x)\<close> is the entry for \<open>(x, y)\<close>
  with its offsets swapped.
\<close>

definition agree :: "nat \<Rightarrow> nat \<Rightarrow> string \<Rightarrow> string \<Rightarrow> bool" where
  "agree i j w w' = (i < length w \<and> j < length w' \<and> w ! i = w' ! j)"

definition arc_consistent :: "crossword \<Rightarrow> domains \<Rightarrow> variable \<Rightarrow> variable \<Rightarrow> bool" where
  "arc_consistent cw ds x y =
     (case overlaps cw x y of
        NoOverlap \<Rightarrow> True
      | Offsets None j \<Rightarrow> True
      | Offsets (Some i) None \<Rightarrow> True
      | Offsets (Some i) (Some j) \<Rightarrow> (\<forall>w \<in> set (ds x). \<exists>w' \<in> set (ds y). agree i j w w'))"

fun flip :: "overlap \<Rightarrow> overlap" where
  "flip NoOverlap = NoOverlap"
| "flip (Offsets i j) = Offsets j i"

definition symmetric_overlaps :: "crossword \<Rightarrow> bool" where
  "symmetric_overlaps cw =
     (\<forall>x \<in> set (variables cw). \<forall>y \<in> set (variables cw). x \<noteq> y \<longrightarrow> overlaps cw y x = flip (overlaps cw x y))"

subsection \<open>Example puzzles\<close>

text \<open>
  A three-letter slot across the top row and a three-letter slot down the second column:
  the second letter of the first is the first letter of the second.
\<close>

definition slotA :: variable where
  "slotA = Variable 0 0 ACROSS 3"

definition slotB :: variable where
  "slotB = Variable 0 1 DOWN 3"

definition cross_overlaps :: "variable \<Rightarrow> variable \<Rightarrow> overlap" where
  "cross_overlaps x y =
     (if x = slotA \<and> y = slotB then Offsets (Some 1) (Some 0)
      else if x = slotB \<and> y = slotA then Offsets (Some 0) (Some 1)
      else NoOverlap)"

definition crossing :: "string list \<Rightarrow> crossword" where
  "crossing ws = \<lparr>variables = [slotA, slotB], words = ws, overlaps = cross_overlaps\<rparr>"

definition cross_puzzle :: crossword where
  "cross_puzzle = crossing [''CAT'', ''ARM'', ''DOG'', ''AB'']"

text \<open>The same grid with a word list in which no two words fit the crossing.\<close>

definition clash_puzzle :: crossword where
  "clash_puzzle = crossing [''CAT'', ''DOG'']"

text \<open>A single five-letter slot and a word list without five-letter words.\<close>

definition slotE :: variable where
  "slotE = Variable 0 0 ACROSS 5"

definition lone_puzzle :: crossword where
  "lone_puzzle = \<lparr>variables = [slotE], words = [''CAT'', ''DOG''], overlaps = (\<lambda>x y. NoOverlap)\<rparr>"

text \<open>Two three-letter slots in different rows: they share no cell.\<close>

definition slotC :: variable where
  "slotC = Variable 2 0 ACROSS 3"

definition parallel_puzzle :: crossword where
  "parallel_puzzle =
     \<lparr>variables = [slotA, slotC], words = [''CAT'', ''DOG''], overlaps = (\<lambda>x y. NoOverlap)\<rparr>"

text \<open>The domains after the constructor and node consistency.\<close>

definition node_domains :: "crossword \<Rightarrow> domains" where
  "node_domains cw = enforce_node_consistency cw (init_domains cw)"

text \<open>The outcome of a propagation pass, with the domains listed slot by slot.\<close>

definition report :: "crossword \<Rightarrow> error + (bool \<times> domains) \<Rightarrow> error + (bool \<times> string list list)" where
  "report cw r = (case r of Inl e \<Rightarrow> Inl e | Inr (b, ds) \<Rightarrow> Inr (b, map ds (variables cw)))"

section \<open>Properties\<close>

subsection \<open>Node consistency\<close>

lemma remove_node_to_remove:
  "remove_words (ds var) (node_to_remove ds var) = filter (\<lambda>word. length word = var_length var) (ds var)"
  by (auto simp: remove_words_def node_to_remove_def intro: filter_cong)

lemma enforce_loop_apply:
  "enforce_loop vars ds v =
     (if v \<in> set vars then filter (\<lambda>word. length word = var_length v) (ds v) else ds v)"
  by (induction vars arbitrary: ds) (auto simp: remove_node_to_remove)

lemma enforce_node_consistency_apply:
  "enforce_node_consistency cw ds v =
     (if v \<in> set (variables cw) then filter (\<lambda>word. length word = var_length v) (ds v) else ds v)"
  by (simp add: enforce_node_consistency_def enforce_loop_apply)

text \<open>
  Claim C7. After \<^verbatim>\<open>enforce_node_consistency\<close> the domain of every slot is its old domain
  without the words whose length differs from the slot's length, so every word left has
  the slot's length; and a second call changes nothing.
\<close>

theorem enforce_node_consistency_filters:
  "(\<forall>var \<in> set (variables cw).
      enforce_node_consistency cw ds var = filter (\<lambda>word. length word = var_length var) (ds var)
      \<and> (\<forall>word \<in> set (enforce_node_consistency cw ds var). length word = var_length var))
   \<and> enforce_node_consistency cw (enforce_node_consistency cw ds) = enforce_node_consistency cw ds"
  by (auto simp: enforce_node_consistency_apply fun_eq_iff)

lemma slots_distinct: "slotA \<noteq> slotB" "slotB \<noteq> slotA"
  by (simp_all add: slotA_def slotB_def)

theorem enforce_node_consistency_filters_witness:
  "enforce_node_consistency cross_puzzle (init_domains cross_puzzle) slotA = [''CAT'', ''ARM'', ''DOG'']
   \<and> enforce_node_consistency cross_puzzle (enforce_node_consistency cross_puzzle (init_domains cross_puzzle))
       = enforce_node_consistency cross_puzzle (init_domains cross_puzzle)"
  using enforce_node_consistency_filters [of cross_puzzle "init_domains cross_puzzle"]
  by (simp add: cross_puzzle_def crossing_def init_domains_def slotA_def)

subsection \<open>Arc consistency\<close>

lemma symmetric_overlapsD:
  "symmetric_overlaps cw \<Longrightarrow> x \<in> set (variables cw) \<Longrightarrow> y \<in> set (variables cw) \<Longrightarrow> x \<noteq> y
   \<Longrightarrow> overlaps cw y x = flip (overlaps cw x y)"
  unfolding symmetric_overlaps_def by blast

lemma any_match_True: "any_match i j w dy = Inr True \<Longrightarrow> \<exists>w' \<in> set dy. agree i j w w'"
  by (induction dy) (auto simp: agree_def split: if_splits)

lemma any_match_False: "any_match i j w dy = Inr False \<Longrightarrow> \<forall>w' \<in> set dy. \<not> agree i j w w'"
  by (induction dy) (auto simp: agree_def split: if_splits)

lemma any_match_Inr: "any_match i j w dy = Inr b \<Longrightarrow> b = (\<exists>w' \<in> set dy. agree i j w w')"
  by (cases b) (auto dest: any_match_True any_match_False)

lemma revise_to_remove_set:
  "revise_to_remove cw ds i j y dx = Inr to_remove \<Longrightarrow>
     set to_remove = {w \<in> set dx. \<not> (\<exists>w' \<in> set (ds y). agree i j w w')}"
proof (induction dx arbitrary: to_remove)
  case Nil
  then show ?case by simp
next
  case (Cons w dx)
  from Cons.prems obtain found rest where
    y: "lookup_domain cw ds y = Inr (ds y)" and
    m: "any_match i j w (ds y) = Inr found" and
    r: "revise_to_remove cw ds i j y dx = Inr rest" and
    t: "to_remove = (if found then rest else w # rest)"
    by (auto simp: lookup_domain_def split: sum.splits if_splits)
  from Cons.IH [OF r] any_match_Inr [OF m] t show ?case by auto
qed

lemma revise_Inr:
  assumes "revise cw ds x y = Inr (b, ds')"
  shows "(\<not> b \<and> ds' = ds \<and> arc_consistent cw ds x y)
       \<or> (b \<and> x \<in> set (variables cw) \<and>
           (\<exists>i j. overlaps cw x y = Offsets (Some i) (Some j) \<and>
              ds' = ds(x := filter (\<lambda>w. \<exists>w' \<in> set (ds y). agree i j w w') (ds x))))"
proof (cases "overlaps cw x y")
  case NoOverlap
  with assms show ?thesis by (simp add: revise_def)
next
  case (Offsets oi oj)
  show ?thesis
  proof (cases "\<exists>i j. oi = Some i \<and> oj = Some j")
    case False
    with assms Offsets show ?thesis
      by (auto simp: revise_def arc_consistent_def split: option.splits)
  next
    case True
    then obtain i j where ij: "oi = Some i" "oj = Some j" by auto
    with assms Offsets obtain to_remove where
      x: "x \<in> set (variables cw)" and
      r: "revise_to_remove cw ds i j y (ds x) = Inr to_remove" and
      res: "(b, ds') = (if to_remove \<noteq> [] then (True, ds(x := remove_words (ds x) to_remove)) else (False, ds))"
      by (auto simp: revise_def lookup_domain_def split: sum.splits if_splits)
    note s = revise_to_remove_set [OF r]
    show ?thesis
    proof (cases "to_remove = []")
      case True
      with s have "\<forall>w \<in> set (ds x). \<exists>w' \<in> set (ds y). agree i j w w'" by auto
      with True res Offsets ij show ?thesis by (simp add: arc_consistent_def)
    next
      case False
      have "remove_words (ds x) to_remove = filter (\<lambda>w. \<exists>w' \<in> set (ds y). agree i j w w') (ds x)"
        unfolding remove_words_def using s by (intro filter_cong) auto
      with False res x Offsets ij show ?thesis by simp
    qed
  qed
qed


lemma revise_subset:
  "revise cw ds x y = Inr (b, ds') \<Longrightarrow> set (ds' v) \<subseteq> set (ds v)"
  by (drule revise_Inr) (auto split: if_splits)

lemma ac3_loop_subset:
  "ac3_loop cw ds queue = Inr (b, ds') \<Longrightarrow> set (ds' v) \<subseteq> set (ds v)"
proof (induction cw ds queue rule: ac3_loop.induct)
  case (1 cw ds)
  then show ?case by simp
next
  case (2 cw ds x y queue)
  from "2.prems" obtain revised ds1 where rev: "revise cw ds x y = Inr (revised, ds1)"
    by (auto split: sum.splits)
  note sub = revise_subset [OF rev, of v]
  show ?case
  proof (cases revised)
    case True
    show ?thesis
    proof (cases "ds1 x = []")
      case True
      with \<open>revised\<close> rev "2.prems" sub show ?thesis
        by (auto simp: lookup_domain_def split: if_splits)
    next
      case False
      with \<open>revised\<close> rev "2.prems" have x: "lookup_domain cw ds1 x = Inr (ds1 x)"
        and rec: "ac3_loop cw ds1 (queue @ map (\<lambda>z. (z, x)) (filter (\<lambda>z. z \<noteq> y) (neighbors cw x))) = Inr (b, ds')"
        by (auto simp: lookup_domain_def split: if_splits)
      from "2.IH"(1) [OF rev refl \<open>revised\<close> x _ rec] False sub show ?thesis by auto
    qed
  next
    case False
    with rev "2.prems" have rec: "ac3_loop cw ds1 queue = Inr (b, ds')" by simp
    from "2.IH"(2) [OF rev refl False rec] sub show ?thesis by auto
  qed
qed

lemma neighbors_iff:
  "y \<in> set (neighbors cw x) \<longleftrightarrow> y \<in> set (variables cw) \<and> y \<noteq> x \<and> overlaps cw x y \<noteq> NoOverlap"
  by (auto simp: neighbors_def)

lemma set_all_arcs:
  "set (all_arcs cw) = {(x, y). x \<in> set (variables cw) \<and> y \<in> set (neighbors cw x)}"
  by (auto simp: all_arcs_def neighbors_iff)

lemma agree_sym: "agree i j w w' = agree j i w' w"
  by (auto simp: agree_def)

lemma arc_consistent_same:
  "ds1 a = ds a \<Longrightarrow> ds1 c = ds c \<Longrightarrow> arc_consistent cw ds1 a c = arc_consistent cw ds a c"
  by (simp add: arc_consistent_def split: overlap.splits option.splits)

lemma arc_consistent_shrink:
  "arc_consistent cw ds a c \<Longrightarrow> set (ds1 a) \<subseteq> set (ds a) \<Longrightarrow> ds1 c = ds c \<Longrightarrow> arc_consistent cw ds1 a c"
  by (auto simp: arc_consistent_def split: overlap.splits option.splits)

lemma revise_step:
  assumes sym: "symmetric_overlaps cw"
    and arc: "(x, y) \<in> set (all_arcs cw)"
    and rev: "revise cw ds x y = Inr (b, ds1)"
    and inv: "\<forall>a c. (a, c) \<in> set (all_arcs cw) \<longrightarrow>
                (a, c) \<in> set ((x, y) # queue) \<or> arc_consistent cw ds a c"
    and ac: "(a, c) \<in> set (all_arcs cw)"
  shows "(a, c) \<in> set (queue @ (if b then map (\<lambda>z. (z, x)) (filter (\<lambda>z. z \<noteq> y) (neighbors cw x)) else []))
         \<or> arc_consistent cw ds1 a c"
proof -
  from arc have x: "x \<in> set (variables cw)" and y: "y \<in> set (variables cw)" and xy: "x \<noteq> y"
    by (auto simp: set_all_arcs neighbors_iff)
  from ac have a: "a \<in> set (variables cw)" and c: "c \<in> set (variables cw)" and ca: "c \<noteq> a"
    and oac: "overlaps cw a c \<noteq> NoOverlap"
    by (auto simp: set_all_arcs neighbors_iff)
  from inv ac have old: "(a, c) = (x, y) \<or> (a, c) \<in> set queue \<or> arc_consistent cw ds a c"
    by auto
  from revise_Inr [OF rev] show ?thesis
  proof
    assume "\<not> b \<and> ds1 = ds \<and> arc_consistent cw ds x y"
    with old show ?thesis by auto
  next
    assume "b \<and> x \<in> set (variables cw) \<and>
      (\<exists>i j. overlaps cw x y = Offsets (Some i) (Some j) \<and>
         ds1 = ds(x := filter (\<lambda>w. \<exists>w' \<in> set (ds y). agree i j w w') (ds x)))"
    then obtain i j where b: b and oxy: "overlaps cw x y = Offsets (Some i) (Some j)"
      and ds1: "ds1 = ds(x := filter (\<lambda>w. \<exists>w' \<in> set (ds y). agree i j w w') (ds x))"
      by auto
    have sub: "set (ds1 x) \<subseteq> set (ds x)" and other: "\<And>v. v \<noteq> x \<Longrightarrow> ds1 v = ds v"
      using ds1 by auto
    consider (this_arc) "a = x" "c = y" | (from_x) "a = x" "c \<noteq> y" | (reverse) "c = x" "a = y"
      | (into_x) "c = x" "a \<noteq> y" | (apart) "a \<noteq> x" "c \<noteq> x"
      by blast
    then show ?thesis
    proof cases
      case this_arc
      have "arc_consistent cw ds1 x y"
        using oxy ds1 xy by (auto simp: arc_consistent_def)
      with this_arc show ?thesis by simp
    next
      case from_x
      with old have "(a, c) \<in> set queue \<or> arc_consistent cw ds a c" by auto
      moreover have "c \<noteq> x" using ca from_x by simp
      ultimately show ?thesis
        using arc_consistent_shrink [of cw ds a c ds1] sub other from_x by auto
    next
      case reverse
      with old xy have "(a, c) \<in> set queue \<or> arc_consistent cw ds y x" by auto
      moreover have "arc_consistent cw ds1 y x" if con: "arc_consistent cw ds y x"
      proof -
        from symmetric_overlapsD [OF sym x y xy] oxy
        have oyx: "overlaps cw y x = Offsets (Some j) (Some i)" by simp
        have "\<exists>w' \<in> set (ds1 x). agree j i w w'" if w: "w \<in> set (ds y)" for w
        proof -
          from con oyx w obtain w' where w': "w' \<in> set (ds x)" "agree j i w w'"
            by (auto simp: arc_consistent_def)
          then have "agree i j w' w" by (simp add: agree_sym [of i j])
          with w w' ds1 have "w' \<in> set (ds1 x)" by auto
          with w' show ?thesis by blast
        qed
        with oyx other [of y] xy show ?thesis by (auto simp: arc_consistent_def)
      qed
      ultimately show ?thesis using reverse by auto
    next
      case into_x
      from ca into_x have "a \<noteq> x" by simp
      from symmetric_overlapsD [OF sym a x this] oac into_x
      have "overlaps cw x a \<noteq> NoOverlap"
        by (cases "overlaps cw a x") simp_all
      with a ca into_x have "a \<in> set (neighbors cw x)" by (simp add: neighbors_iff)
      with into_x b show ?thesis by auto
    next
      case apart
      with old have "(a, c) \<in> set queue \<or> arc_consistent cw ds a c" by auto
      with apart other arc_consistent_same [of ds1 a ds c cw] show ?thesis by auto
    qed
  qed
qed


lemma enqueued_arcs:
  assumes sym: "symmetric_overlaps cw" and arc: "(x, y) \<in> set (all_arcs cw)"
  shows "set (map (\<lambda>z. (z, x)) (filter (\<lambda>z. z \<noteq> y) (neighbors cw x))) \<subseteq> set (all_arcs cw)"
proof
  fix p
  assume "p \<in> set (map (\<lambda>z. (z, x)) (filter (\<lambda>z. z \<noteq> y) (neighbors cw x)))"
  then obtain z where p: "p = (z, x)" and z: "z \<in> set (neighbors cw x)" by auto
  from arc have x: "x \<in> set (variables cw)" by (simp add: set_all_arcs)
  from z have zv: "z \<in> set (variables cw)" and zx: "z \<noteq> x" and o: "overlaps cw x z \<noteq> NoOverlap"
    by (simp_all add: neighbors_iff)
  from zx have "x \<noteq> z" by simp
  from symmetric_overlapsD [OF sym x zv this] o have "overlaps cw z x \<noteq> NoOverlap"
    by (cases "overlaps cw x z") simp_all
  with x zv zx p show "p \<in> set (all_arcs cw)" by (simp add: set_all_arcs neighbors_iff)
qed

lemma ac3_loop_arc_consistent:
  "ac3_loop cw ds queue = Inr (True, ds') \<Longrightarrow> symmetric_overlaps cw \<Longrightarrow>
   set queue \<subseteq> set (all_arcs cw) \<Longrightarrow>
   \<forall>a c. (a, c) \<in> set (all_arcs cw) \<longrightarrow> (a, c) \<in> set queue \<or> arc_consistent cw ds a c \<Longrightarrow>
   (a, c) \<in> set (all_arcs cw) \<Longrightarrow> arc_consistent cw ds' a c"
proof (induction cw ds queue rule: ac3_loop.induct)
  case (1 cw ds)
  then show ?case by simp
next
  case (2 cw ds x y queue)
  note sym = "2.prems"(2) and inv = "2.prems"(4) and ac = "2.prems"(5)
  from "2.prems"(3) have arc: "(x, y) \<in> set (all_arcs cw)" and q: "set queue \<subseteq> set (all_arcs cw)"
    by simp_all
  from "2.prems"(1) obtain revised ds1 where rev: "revise cw ds x y = Inr (revised, ds1)"
    by (auto split: sum.splits)
  have step: "\<forall>a c. (a, c) \<in> set (all_arcs cw) \<longrightarrow>
      (a, c) \<in> set (queue @ (if revised then map (\<lambda>z. (z, x)) (filter (\<lambda>z. z \<noteq> y) (neighbors cw x)) else []))
      \<or> arc_consistent cw ds1 a c"
    using revise_step [OF sym arc rev inv] by blast
  show ?case
  proof (cases revised)
    case True
    with rev "2.prems"(1) have x: "lookup_domain cw ds1 x = Inr (ds1 x)" and ne: "length (ds1 x) \<noteq> 0"
      and rec: "ac3_loop cw ds1 (queue @ map (\<lambda>z. (z, x)) (filter (\<lambda>z. z \<noteq> y) (neighbors cw x))) = Inr (True, ds')"
      by (auto simp: lookup_domain_def split: if_splits)
    have q': "set (queue @ map (\<lambda>z. (z, x)) (filter (\<lambda>z. z \<noteq> y) (neighbors cw x))) \<subseteq> set (all_arcs cw)"
      using q enqueued_arcs [OF sym arc] by simp
    from step True have inv':
      "\<forall>a c. (a, c) \<in> set (all_arcs cw) \<longrightarrow>
         (a, c) \<in> set (queue @ map (\<lambda>z. (z, x)) (filter (\<lambda>z. z \<noteq> y) (neighbors cw x)))
         \<or> arc_consistent cw ds1 a c"
      by simp
    from "2.IH"(1) [OF rev refl True x ne rec sym q' inv' ac] show ?thesis .
  next
    case False
    with rev "2.prems"(1) have rec: "ac3_loop cw ds1 queue = Inr (True, ds')" by simp
    from step False have inv':
      "\<forall>a c. (a, c) \<in> set (all_arcs cw) \<longrightarrow> (a, c) \<in> set queue \<or> arc_consistent cw ds1 a c"
      by simp
    from "2.IH"(2) [OF rev refl False rec sym q inv' ac] show ?thesis .
  qed
qed

lemma ac3_loop_false_iff:
  "ac3_loop cw ds queue = Inr (b, ds') \<Longrightarrow>
     (\<not> b) = (\<exists>v \<in> set (variables cw). ds v \<noteq> [] \<and> ds' v = [])"
proof (induction cw ds queue rule: ac3_loop.induct)
  case (1 cw ds)
  then show ?case by auto
next
  case (2 cw ds x y queue)
  from "2.prems" obtain revised ds1 where rev: "revise cw ds x y = Inr (revised, ds1)"
    by (auto split: sum.splits)
  show ?case
  proof (cases revised)
    case False
    with rev have same: "ds1 = ds" using revise_unrevised by simp
    from False rev "2.prems" have rec: "ac3_loop cw ds1 queue = Inr (b, ds')" by simp
    from "2.IH"(2) [OF rev refl False rec] same show ?thesis by simp
  next
    case True
    with rev have r: "revise cw ds x y = Inr (True, ds1)" by simp
    from revise_revised [OF r] have x: "x \<in> set (variables cw)"
      and less: "length (ds1 x) < length (ds x)" and other: "\<And>v. v \<noteq> x \<Longrightarrow> ds1 v = ds v"
      by auto
    from less have dx: "ds x \<noteq> []" by auto
    show ?thesis
    proof (cases "ds1 x = []")
      case empty: True
      with True rev "2.prems" x have "b = False" "ds' = ds1"
        by (auto simp: lookup_domain_def)
      with empty dx x show ?thesis by auto
    next
      case nonempty: False
      with True rev "2.prems" x have lk: "lookup_domain cw ds1 x = Inr (ds1 x)"
        and rec: "ac3_loop cw ds1 (queue @ map (\<lambda>z. (z, x)) (filter (\<lambda>z. z \<noteq> y) (neighbors cw x))) = Inr (b, ds')"
        by (auto simp: lookup_domain_def)
      from nonempty have ne: "length (ds1 x) \<noteq> 0" by simp
      have "(ds1 v \<noteq> []) = (ds v \<noteq> [])" for v
        using other [of v] nonempty dx by (cases "v = x") auto
      with "2.IH"(1) [OF rev refl True lk ne rec] show ?thesis by simp
    qed
  qed
qed

subsection \<open>Evaluating the examples\<close>

lemma report_Inr:
  "report cw r = Inr (b, dl) \<Longrightarrow> \<exists>ds'. r = Inr (b, ds') \<and> map ds' (variables cw) = dl"
  by (auto simp: report_def split: sum.splits)

lemma crossing_variables: "variables (crossing ws) = [slotA, slotB]"
  by (simp add: crossing_def)

lemma crossing_words: "words (crossing ws) = ws"
  by (simp add: crossing_def)

lemma crossing_overlaps:
  "overlaps (crossing ws) slotA slotB = Offsets (Some 1) (Some 0)"
  "overlaps (crossing ws) slotB slotA = Offsets (Some 0) (Some 1)"
  "overlaps (crossing ws) slotA slotA = NoOverlap"
  "overlaps (crossing ws) slotB slotB = NoOverlap"
  by (simp_all add: crossing_def cross_overlaps_def slots_distinct)

lemma crossing_neighbors:
  "neighbors (crossing ws) slotA = [slotB]" "neighbors (crossing ws) slotB = [slotA]"
  by (simp_all add: neighbors_def crossing_variables crossing_overlaps slots_distinct)

lemma crossing_all_arcs: "all_arcs (crossing ws) = [(slotA, slotB), (slotB, slotA)]"
  by (simp add: all_arcs_def crossing_variables crossing_neighbors slots_distinct)

lemma crossing_lookup:
  "lookup_domain (crossing ws) ds slotA = Inr (ds slotA)"
  "lookup_domain (crossing ws) ds slotB = Inr (ds slotB)"
  by (simp_all add: lookup_domain_def crossing_variables)

lemma crossing_node_domains:
  "node_domains (crossing ws) slotA = filter (\<lambda>word. length word = 3) ws"
  "node_domains (crossing ws) slotB = filter (\<lambda>word. length word = 3) ws"
  by (simp_all add: node_domains_def enforce_node_consistency_apply init_domains_def
      crossing_variables crossing_words slotA_def slotB_def)

lemma crossing_symmetric: "symmetric_overlaps (crossing ws)"
  by (simp add: symmetric_overlaps_def crossing_variables crossing_overlaps)

lemmas crossing_simps =
  crossing_variables crossing_overlaps crossing_neighbors crossing_all_arcs crossing_lookup
  crossing_node_domains slots_distinct

lemma cross_ac3:
  "report cross_puzzle (ac3 cross_puzzle (node_domains cross_puzzle) None) = Inr (True, [[''CAT''], [''ARM'']])"
  by (simp add: cross_puzzle_def ac3_def revise_def crossing_simps remove_words_def report_def)

lemma clash_ac3:
  "report clash_puzzle (ac3 clash_puzzle (node_domains clash_puzzle) None) = Inr (False, [[], [''CAT'', ''DOG'']])"
  by (simp add: clash_puzzle_def ac3_def revise_def crossing_simps remove_words_def report_def)

lemma lone_variables: "variables lone_puzzle = [slotE]"
  by (simp add: lone_puzzle_def)

lemma lone_overlaps: "overlaps lone_puzzle x y = NoOverlap"
  by (simp add: lone_puzzle_def)

lemma lone_node_domains: "node_domains lone_puzzle slotE = []"
  by (simp add: node_domains_def enforce_node_consistency_apply init_domains_def lone_puzzle_def slotE_def)

lemma lone_ac3:
  "report lone_puzzle (ac3 lone_puzzle (node_domains lone_puzzle) None) = Inr (True, [[]])"
  by (simp add: ac3_def all_arcs_def neighbors_def report_def lone_node_domains lone_variables lone_overlaps)


subsection \<open>Claims about propagation\<close>

text \<open>
  Claim C4. If \<^verbatim>\<open>ac3()\<close> returns true on a structure whose overlap relation is symmetric,
  then for every slot \<open>x\<close>, every neighbour \<open>y\<close> of \<open>x\<close> with overlap \<open>(i, j)\<close> and every
  word \<open>w\<close> left in the domain of \<open>x\<close>, some word \<open>w'\<close> in the domain of \<open>y\<close> has
  \<open>w[i] = w'[j]\<close>.
\<close>

theorem ac3_arc_consistent:
  assumes "ac3 cw ds None = Inr (True, ds')" and "symmetric_overlaps cw"
  shows "\<forall>x \<in> set (variables cw). \<forall>y \<in> set (neighbors cw x). \<forall>i j.
           overlaps cw x y = Offsets (Some i) (Some j) \<longrightarrow>
           (\<forall>w \<in> set (ds' x). \<exists>w' \<in> set (ds' y). i < length w \<and> j < length w' \<and> w ! i = w' ! j)"
proof (intro ballI allI impI)
  fix x y i j w
  assume x: "x \<in> set (variables cw)" and y: "y \<in> set (neighbors cw x)"
    and o: "overlaps cw x y = Offsets (Some i) (Some j)" and w: "w \<in> set (ds' x)"
  from assms(1) have loop: "ac3_loop cw ds (all_arcs cw) = Inr (True, ds')"
    by (simp add: ac3_def)
  from x y have arc: "(x, y) \<in> set (all_arcs cw)" by (simp add: set_all_arcs)
  have "arc_consistent cw ds' x y"
    by (rule ac3_loop_arc_consistent [OF loop assms(2) _ _ arc]) simp_all
  with o w show "\<exists>w' \<in> set (ds' y). i < length w \<and> j < length w' \<and> w ! i = w' ! j"
    by (simp add: arc_consistent_def agree_def)
qed

theorem ac3_arc_consistent_witness:
  "\<exists>ds'. ac3 cross_puzzle (node_domains cross_puzzle) None = Inr (True, ds')
     \<and> symmetric_overlaps cross_puzzle
     \<and> ds' slotA = [''CAT''] \<and> ds' slotB = [''ARM'']
     \<and> (\<exists>w' \<in> set (ds' slotB). 1 < length ''CAT'' \<and> 0 < length w' \<and> ''CAT'' ! 1 = w' ! 0)"
proof -
  from report_Inr [OF cross_ac3] obtain ds' where
    run: "ac3 cross_puzzle (node_domains cross_puzzle) None = Inr (True, ds')"
    and doms: "ds' slotA = [''CAT'']" "ds' slotB = [''ARM'']"
    by (auto simp: cross_puzzle_def crossing_variables)
  have sym: "symmetric_overlaps cross_puzzle"
    by (simp add: cross_puzzle_def crossing_symmetric)
  from ac3_arc_consistent [OF run sym] doms
  have "\<exists>w' \<in> set (ds' slotB). 1 < length ''CAT'' \<and> 0 < length w' \<and> ''CAT'' ! 1 = w' ! 0"
    by (simp add: cross_puzzle_def crossing_simps)
  with run sym doms show ?thesis by blast
qed

text \<open>
  Claim C2, as the code has it. \<^verbatim>\<open>ac3()\<close> returns false exactly when the pass empties a
  domain, that is when some slot whose domain held a word before the call has an empty
  domain after it; otherwise it returns true. A domain that is empty before the call and
  is never revised does not make \<^verbatim>\<open>ac3()\<close> return false. In particular, when no domain
  is empty before the call, \<^verbatim>\<open>ac3()\<close> returns false exactly when it leaves some domain
  empty.
\<close>

theorem ac3_false_iff_emptied:
  assumes "ac3 cw ds None = Inr (b, ds')"
  shows "(\<not> b) = (\<exists>v \<in> set (variables cw). ds v \<noteq> [] \<and> ds' v = [])
       \<and> ((\<forall>v \<in> set (variables cw). ds v \<noteq> []) \<longrightarrow> (\<not> b) = (\<exists>v \<in> set (variables cw). ds' v = []))"
proof -
  from assms have "ac3_loop cw ds (all_arcs cw) = Inr (b, ds')" by (simp add: ac3_def)
  from ac3_loop_false_iff [OF this] show ?thesis by auto
qed

theorem ac3_false_iff_emptied_witness:
  "\<exists>ds'. ac3 clash_puzzle (node_domains clash_puzzle) None = Inr (False, ds')
     \<and> node_domains clash_puzzle slotA \<noteq> [] \<and> node_domains clash_puzzle slotB \<noteq> []
     \<and> (\<exists>v \<in> set (variables clash_puzzle). ds' v = [])"
proof -
  from report_Inr [OF clash_ac3] obtain ds' where
    run: "ac3 clash_puzzle (node_domains clash_puzzle) None = Inr (False, ds')"
    by auto
  have full: "node_domains clash_puzzle slotA \<noteq> []" "node_domains clash_puzzle slotB \<noteq> []"
    by (simp_all add: clash_puzzle_def crossing_node_domains)
  then have "\<forall>v \<in> set (variables clash_puzzle). node_domains clash_puzzle v \<noteq> []"
    by (simp add: clash_puzzle_def crossing_variables)
  with ac3_false_iff_emptied [OF run] have "\<exists>v \<in> set (variables clash_puzzle). ds' v = []"
    by simp
  with run full show ?thesis by blast
qed

text \<open>
  Claim C2 as stated fails: the five-letter slot of \<open>lone_puzzle\<close> has an empty domain
  after node consistency, and \<^verbatim>\<open>ac3()\<close> returns true and leaves it empty.
\<close>

theorem ac3_true_with_empty_domain:
  "report lone_puzzle (ac3 lone_puzzle (node_domains lone_puzzle) None) = Inr (True, [[]])
   \<and> variables lone_puzzle = [slotE] \<and> node_domains lone_puzzle slotE = []"
  by (simp add: lone_ac3 lone_variables lone_node_domains)

text \<open>
  Claim C8. No call of \<^verbatim>\<open>enforce_node_consistency\<close>, \<^verbatim>\<open>revise\<close> or \<^verbatim>\<open>ac3\<close> adds a word to
  a domain: the domain of every slot after the call is a subset of its domain before.
\<close>

theorem domains_only_shrink:
  "(\<forall>v. set (enforce_node_consistency cw ds v) \<subseteq> set (ds v))
   \<and> (\<forall>b ds'. revise cw ds x y = Inr (b, ds') \<longrightarrow> (\<forall>v. set (ds' v) \<subseteq> set (ds v)))
   \<and> (\<forall>b ds'. ac3 cw ds arcs = Inr (b, ds') \<longrightarrow> (\<forall>v. set (ds' v) \<subseteq> set (ds v)))"
proof (intro conjI allI impI)
  fix v
  show "set (enforce_node_consistency cw ds v) \<subseteq> set (ds v)"
    by (auto simp: enforce_node_consistency_apply)
next
  fix b ds' v
  assume "revise cw ds x y = Inr (b, ds')"
  then show "set (ds' v) \<subseteq> set (ds v)" by (rule revise_subset)
next
  fix b ds' v
  assume "ac3 cw ds arcs = Inr (b, ds')"
  then show "set (ds' v) \<subseteq> set (ds v)" unfolding ac3_def by (rule ac3_loop_subset)
qed

lemma cross_revise:
  "report cross_puzzle (revise cross_puzzle (node_domains cross_puzzle) slotA slotB)
     = Inr (True, [[''CAT''], [''CAT'', ''ARM'', ''DOG'']])"
  by (simp add: cross_puzzle_def revise_def crossing_simps remove_words_def report_def)

theorem domains_only_shrink_witness:
  "set (enforce_node_consistency cross_puzzle (init_domains cross_puzzle) slotA)
     \<subseteq> set (init_domains cross_puzzle slotA)
   \<and> (\<exists>ds'. revise cross_puzzle (node_domains cross_puzzle) slotA slotB = Inr (True, ds')
         \<and> set (ds' slotA) \<subseteq> set (node_domains cross_puzzle slotA))
   \<and> (\<exists>ds'. ac3 cross_puzzle (node_domains cross_puzzle) None = Inr (True, ds')
         \<and> set (ds' slotB) \<subseteq> set (node_domains cross_puzzle slotB))"
proof -
  from report_Inr [OF cross_revise] obtain ds1 where
    r: "revise cross_puzzle (node_domains cross_puzzle) slotA slotB = Inr (True, ds1)" by auto
  from report_Inr [OF cross_ac3] obtain ds2 where
    a: "ac3 cross_puzzle (node_domains cross_puzzle) None = Inr (True, ds2)" by auto
  from domains_only_shrink [of cross_puzzle "init_domains cross_puzzle"]
  have "set (enforce_node_consistency cross_puzzle (init_domains cross_puzzle) slotA)
          \<subseteq> set (init_domains cross_puzzle slotA)" by blast
  moreover from domains_only_shrink [of cross_puzzle "node_domains cross_puzzle" slotA slotB None] r a
  have "set (ds1 slotA) \<subseteq> set (node_domains cross_puzzle slotA)"
    "set (ds2 slotB) \<subseteq> set (node_domains cross_puzzle slotB)" by blast+
  ultimately show ?thesis using r a by blast
qed

text \<open>
  Claim C10. An empty sequence of initial arcs is falsy, so \<^verbatim>\<open>ac3([])\<close> does not return
  true at once: it runs the loop from the queue of all arcs \<open>(x, y)\<close> with \<open>y\<close> a
  neighbour of \<open>x\<close>, as \<^verbatim>\<open>ac3()\<close> does.
\<close>

theorem ac3_empty_arcs_is_default:
  "ac3 cw ds (Some []) = ac3 cw ds None
   \<and> ac3 cw ds (Some []) =
       ac3_loop cw ds
         (concat (map (\<lambda>x. map (\<lambda>y. (x, y)) (filter (\<lambda>y. x \<noteq> y) (neighbors cw x))) (variables cw)))"
  by (simp add: ac3_def all_arcs_def)

theorem ac3_empty_arcs_is_default_witness:
  "report clash_puzzle (ac3 clash_puzzle (node_domains clash_puzzle) (Some []))
     = Inr (False, [[], [''CAT'', ''DOG'']])"
  using ac3_empty_arcs_is_default [of clash_puzzle "node_domains clash_puzzle"] clash_ac3
  by simp

lemma revise_NoOverlap: "overlaps cw x y = NoOverlap \<Longrightarrow> revise cw ds x y = Inl TypeError"
  by (simp add: revise_def)

lemma revise_None_offsets:
  "overlaps cw x y = Offsets None j \<or> overlaps cw x y = Offsets i None \<Longrightarrow>
     revise cw ds x y = Inr (False, ds)"
  by (auto simp: revise_def split: option.splits)

lemma parallel_overlaps: "overlaps parallel_puzzle x y = NoOverlap"
  by (simp add: parallel_puzzle_def)

text \<open>
  Claim C6 fails on the code. When the table holds \<^verbatim>\<open>None\<close> for a pair of slots, the
  unpacking \<^verbatim>\<open>i, j = self.crossword.overlaps[x, y]\<close> raises \<^verbatim>\<open>TypeError\<close> before the test
  \<^verbatim>\<open>i is not None and j is not None\<close> is reached.
\<close>

theorem revise_no_overlap_raises:
  "overlaps parallel_puzzle slotA slotC = NoOverlap
   \<and> revise parallel_puzzle (node_domains parallel_puzzle) slotA slotC = Inl TypeError"
  by (simp add: revise_NoOverlap parallel_overlaps)

end
